theory Spec2Isabelle
  imports Complex_Main "HOL-Library.AList" "HOL-Library.Sublist" "HOL-Library.Word"
begin

unbundle bit_operations_syntax

section \<open>Conventions\<close>

text \<open>
  Python floats are modelled as \<^typ>\<open>real\<close>, Python ints as \<^typ>\<open>int\<close>, and
  \<open>str\<close> as \<^typ>\<open>string\<close>.  A \<open>dict\<close> whose iteration order is observable is
  an association list in insertion order: \<^const>\<open>AList.update\<close> overwrites in place or appends
  at the end (as \<open>d[k] = v\<close> does), \<^const>\<open>AList.delete\<close> is \<open>d.pop(k, None)\<close>, and
  \<^const>\<open>map_of\<close> is the lookup.  Readings of the environment (\<open>time.time()\<close>,
  \<open>uuid.uuid4()\<close>, the random client nonce) are arguments of the functions that make them.
\<close>

datatype error = KeyError | TypeError

section \<open>Frame-rate governor (\<open>app/utils/FPSRateLimiter.py\<close>)\<close>

record FPSRateLimiter =
  target_fps :: real
  frame_interval :: real
  last_frame_time :: "real option"
  frame_count :: int
  start_time :: real

text \<open>\<open>FPSRateLimiter.__init__\<close>; \<open>now\<close> is the reading of \<open>time.time()\<close>.\<close>

definition FPSRateLimiter_init :: "real \<Rightarrow> real \<Rightarrow> FPSRateLimiter" where
  "FPSRateLimiter_init fps now =
     \<lparr> target_fps = fps,
       frame_interval = (if fps > 0 then 1 / fps else 0),
       last_frame_time = None,
       frame_count = 0,
       start_time = now \<rparr>"

text \<open>\<open>should_process_frame\<close>; \<open>current_time\<close> is the reading of \<open>time.time()\<close>.\<close>

definition should_process_frame :: "real \<Rightarrow> FPSRateLimiter \<Rightarrow> bool \<times> FPSRateLimiter" where
  "should_process_frame current_time g =
     (case last_frame_time g of
        None \<Rightarrow>
          (True, g\<lparr>last_frame_time := Some current_time, frame_count := frame_count g + 1\<rparr>)
      | Some last_time \<Rightarrow>
          (let elapsed = current_time - last_time in
           if elapsed \<ge> frame_interval g
           then (True, g\<lparr>last_frame_time := Some current_time, frame_count := frame_count g + 1\<rparr>)
           else (False, g)))"

text \<open>The governor's decisions on a sequence of frames offered at the given clock readings.\<close>

fun offer_frames :: "FPSRateLimiter \<Rightarrow> real list \<Rightarrow> bool list" where
  "offer_frames g [] = []"
| "offer_frames g (t # ts) =
     (case should_process_frame t g of (b, g') \<Rightarrow> b # offer_frames g' ts)"

text \<open>
  The specification's wording, for comparison: the first offered frame is accepted; a later one
  is accepted iff the time elapsed since the last accepted frame is at least \<open>1 / target_fps\<close>.
  The first argument is the time of the last accepted frame, if any.
\<close>

fun governor_spec :: "real \<Rightarrow> real option \<Rightarrow> real list \<Rightarrow> bool list" where
  "governor_spec fps prev [] = []"
| "governor_spec fps None (t # ts) = True # governor_spec fps (Some t) ts"
| "governor_spec fps (Some l) (t # ts) =
     (if t - l \<ge> 1 / fps then True # governor_spec fps (Some t) ts
      else False # governor_spec fps (Some l) ts)"

section \<open>Calibration (\<open>app/core/calibration/calibrator.py\<close>)\<close>





section \<open>Camera configuration (\<open>app/database/models.py\<close>)\<close>

text \<open>
  The \<open>features\<close> column is a JSON dict; the values the schema \<open>FeatureConfiguration\<close>
  admits are flags and lists of class names.
\<close>

datatype feature_value = Flag bool | Classes "string list"

fun truthy :: "feature_value \<Rightarrow> bool" where
  "truthy (Flag b) = b"
| "truthy (Classes cs) = (cs \<noteq> [])"

type_synonym features = "string \<rightharpoonup> feature_value"

text \<open>The truth value of \<open>features.get(key, default)\<close> for a Boolean default.\<close>

definition get_flag :: "features \<Rightarrow> string \<Rightarrow> bool \<Rightarrow> bool" where
  "get_flag fs key dflt = (case fs key of None \<Rightarrow> dflt | Some v \<Rightarrow> truthy v)"

text \<open>The fields \<open>id\<close> and \<open>name\<close> are written \<open>camera_id\<close> and \<open>camera_name\<close>.\<close>

record Camera =
  camera_id :: string
  camera_name :: string
  fps :: int
  is_calibrated :: bool
  pixels_per_meter :: "real option"
  features :: features

section \<open>Speed (\<open>app/core/tracking/speed_calculator.py\<close>, \<open>app/api/websocket.py\<close>)\<close>

record SpeedCalculator =
  calc_fps :: int

definition SpeedCalculator_init :: "int \<Rightarrow> SpeedCalculator" where
  "SpeedCalculator_init f = \<lparr> calc_fps = f \<rparr>"

text \<open>The module's global instance \<open>speed_calculator = SpeedCalculator()\<close>, with the default \<open>fps = 30\<close>.\<close>

definition speed_calculator :: SpeedCalculator where
  "speed_calculator = SpeedCalculator_init 30"

text \<open>
  \<open>calculate_speed\<close>.  The result dict is an association list in insertion order.
  \<open>if pixels_per_meter:\<close> holds for a ratio that is neither \<open>None\<close> nor zero.
\<close>

definition calculate_speed ::
  "SpeedCalculator \<Rightarrow> real \<times> real \<Rightarrow> real option \<Rightarrow> (string \<times> real) list" where
  "calculate_speed self velocity ppm =
     (case velocity of (vx, vy) \<Rightarrow>
        let speed_px = sqrt (vx\<^sup>2 + vy\<^sup>2) * real_of_int (calc_fps self);
            result = [(''speed_px_per_sec'', speed_px),
                      (''velocity_x'', vx * real_of_int (calc_fps self)),
                      (''velocity_y'', vy * real_of_int (calc_fps self))]
        in (case ppm of
              None \<Rightarrow> result
            | Some r \<Rightarrow>
                if r = 0 then result
                else let speed_m_per_sec = speed_px / r in
                     AList.update ''speed_kmh'' (speed_m_per_sec * 3.6)
                       (AList.update ''speed_m_per_sec'' speed_m_per_sec result)))"

text \<open>
  The speed block of \<open>process_frame_sync\<close> for one tracked object with the given class name and
  velocity: \<open>None\<close> when the block is skipped (speed disabled or the class filtered out),
  otherwise the entries merged into the object's data.  A class filter that is truthy but not a
  list makes \<open>in\<close> raise \<open>TypeError\<close> before the \<open>try\<close>.
\<close>

definition speed_block ::
  "Camera \<Rightarrow> string \<Rightarrow> real \<times> real \<Rightarrow> error + (string \<times> real) list option" where
  "speed_block camera class_name velocity =
     (let compute = Inr (Some (calculate_speed speed_calculator velocity
                          (if is_calibrated camera then pixels_per_meter camera else None)))
      in if \<not> get_flag (features camera) ''speed'' False then Inr None
         else (case features camera ''speed_classes'' of
                 None \<Rightarrow> compute
               | Some (Classes cs) \<Rightarrow>
                   if cs = [] \<or> class_name \<in> set cs then compute else Inr None
               | Some (Flag b) \<Rightarrow> if \<not> b then compute else Inl TypeError))"

section \<open>Object tracker (\<open>app/core/tracking/tracker.py\<close>)\<close>

record Detection =
  x1 :: real
  y1 :: real
  x2 :: real
  y2 :: real
  confidence :: real
  class_id :: int
  label :: string

text \<open>
  The dataclass \<open>TrackedObject\<close>; its fields \<open>class_id\<close> and \<open>confidence\<close> are written
  \<open>obj_class_id\<close> and \<open>obj_confidence\<close>.  \<open>trajectory\<close> is a \<open>deque(maxlen=100)\<close>.
\<close>

record TrackedObject =
  track_id :: string
  obj_class_id :: int
  class_name :: string
  bbox :: "real \<times> real \<times> real \<times> real"
  obj_confidence :: real
  centroid :: "real \<times> real"
  velocity :: "real \<times> real"
  age :: int
  hits :: int
  time_since_update :: int
  last_seen :: real
  trajectory :: "(real \<times> real) list"
  distance_traveled :: real

text \<open>\<open>deque.append\<close> on a deque of maximal length 100: a full deque drops its oldest element.\<close>

definition trajectory_append :: "real \<times> real \<Rightarrow> (real \<times> real) list \<Rightarrow> (real \<times> real) list" where
  "trajectory_append c t = (if length t < 100 then t @ [c] else tl t @ [c])"

text \<open>
  \<open>cv2.KalmanFilter\<close> is a library object.  The model keeps what the tracker writes to it:
  the initial state \<open>statePre\<close> and the measurements passed to \<open>correct\<close> (each followed by
  \<open>predict\<close>).  The three constant matrices set by \<open>_create_kalman_filter\<close> are left out.
\<close>

record KalmanFilter =
  statePre :: "real \<times> real \<times> real \<times> real"
  corrections :: "(real \<times> real) list"

definition create_kalman_filter :: KalmanFilter where
  "create_kalman_filter = \<lparr> statePre = (0, 0, 0, 0), corrections = [] \<rparr>"

definition correct_predict :: "real \<times> real \<Rightarrow> KalmanFilter \<Rightarrow> KalmanFilter" where
  "correct_predict m kf = kf\<lparr>corrections := corrections kf @ [m]\<rparr>"

text \<open>
  The tracker's three dicts, in insertion order.  \<open>issued\<close> is a history variable that the code
  does not have: the ids \<open>register\<close> has returned so far, oldest first.  No other field reads it.
\<close>

record ObjectTracker =
  max_disappeared :: int
  max_distance :: real
  objects :: "(string \<times> TrackedObject) list"
  disappeared :: "(string \<times> int) list"
  kalman_filters :: "(string \<times> KalmanFilter) list"
  issued :: "string list"

definition ObjectTracker_init :: "int \<Rightarrow> real \<Rightarrow> ObjectTracker" where
  "ObjectTracker_init md mx =
     \<lparr> max_disappeared = md, max_distance = mx,
       objects = [], disappeared = [], kalman_filters = [], issued = [] \<rparr>"

text \<open>\<open>ObjectTracker()\<close> with the default arguments.\<close>

definition ObjectTracker_default :: ObjectTracker where
  "ObjectTracker_default = ObjectTracker_init 30 100"

text \<open>
  \<open>register\<close>.  \<open>uuid n\<close> is the outcome of the tracker's \<open>n\<close>-th draw of
  \<open>str(uuid.uuid4())[:8]\<close> (counting from 0), and \<open>now\<close> the reading of \<open>time.time()\<close>.
\<close>

definition register ::
  "(nat \<Rightarrow> string) \<Rightarrow> real \<Rightarrow> real \<times> real \<Rightarrow> Detection \<Rightarrow> ObjectTracker
     \<Rightarrow> string \<times> ObjectTracker" where
  "register uuid now c det s =
     (let tid = uuid (length (issued s));
          obj = \<lparr> track_id = tid,
                  obj_class_id = class_id det,
                  class_name = label det,
                  bbox = (x1 det, y1 det, x2 det, y2 det),
                  obj_confidence = confidence det,
                  centroid = c,
                  velocity = (0, 0),
                  age = 1,
                  hits = 1,
                  time_since_update = 0,
                  last_seen = now,
                  trajectory = trajectory_append c [],
                  distance_traveled = 0 \<rparr>;
          kf = create_kalman_filter\<lparr>statePre := (fst c, snd c, 0, 0)\<rparr>
      in (tid,
          s\<lparr> objects := AList.update tid obj (objects s),
             disappeared := AList.update tid 0 (disappeared s),
             kalman_filters := AList.update tid kf (kalman_filters s),
             issued := issued s @ [tid] \<rparr>))"

definition deregister :: "string \<Rightarrow> ObjectTracker \<Rightarrow> ObjectTracker" where
  "deregister tid s =
     s\<lparr> objects := AList.delete tid (objects s),
        disappeared := AList.delete tid (disappeared s),
        kalman_filters := AList.delete tid (kalman_filters s) \<rparr>"

text \<open>
  The body shared by the two loops over objects without a detection (lines 83--88 and
  168--173): count the skipped frame, age the object, deregister it past the threshold.
  A subscript on a missing key raises \<open>KeyError\<close>.
\<close>

definition mark_disappeared :: "string \<Rightarrow> ObjectTracker \<Rightarrow> error + ObjectTracker" where
  "mark_disappeared tid s =
     (case map_of (disappeared s) tid of
        None \<Rightarrow> Inl KeyError
      | Some n \<Rightarrow>
          (case map_of (objects s) tid of
             None \<Rightarrow> Inl KeyError
           | Some obj \<Rightarrow>
               let s' = s\<lparr> disappeared := AList.update tid (n + 1) (disappeared s),
                           objects := AList.update tid
                             (obj\<lparr> time_since_update := time_since_update obj + 1,
                                   age := age obj + 1 \<rparr>) (objects s) \<rparr>
               in if n + 1 > max_disappeared s' then Inr (deregister tid s') else Inr s'))"

fun mark_all :: "string list \<Rightarrow> ObjectTracker \<Rightarrow> error + ObjectTracker" where
  "mark_all [] s = Inr s"
| "mark_all (tid # tids) s =
     (case mark_disappeared tid s of Inl e \<Rightarrow> Inl e | Inr s' \<Rightarrow> mark_all tids s')"

definition centroid_of :: "Detection \<Rightarrow> real \<times> real" where
  "centroid_of det = ((x1 det + x2 det) / 2, (y1 det + y2 det) / 2)"

text \<open>A loop of \<open>register\<close> calls over (centroid, detection) pairs.\<close>

fun register_all ::
  "(nat \<Rightarrow> string) \<Rightarrow> real \<Rightarrow> ((real \<times> real) \<times> Detection) list \<Rightarrow> ObjectTracker
     \<Rightarrow> ObjectTracker" where
  "register_all uuid now [] s = s"
| "register_all uuid now ((c, det) # rest) s =
     register_all uuid now rest (snd (register uuid now c det s))"

text \<open>\<open>np.linalg.norm\<close> of the difference of two centroids, and the matrix \<open>D\<close> by rows.\<close>

definition norm2 :: "real \<times> real \<Rightarrow> real \<times> real \<Rightarrow> real" where
  "norm2 a b = sqrt ((fst a - fst b)\<^sup>2 + (snd a - snd b)\<^sup>2)"

definition distance_matrix :: "(real \<times> real) list \<Rightarrow> (real \<times> real) list \<Rightarrow> real list list" where
  "distance_matrix ocs ics = map (\<lambda>oc. map (\<lambda>ic. norm2 oc ic) ics) ocs"

text \<open>
  \<open>argsort\<close> is modelled as a stable sort of the indices by their keys (equal keys keep index
  order), and \<open>argmin\<close> returns the first index of the minimum, as numpy documents.
\<close>

definition argsort :: "real list \<Rightarrow> nat list" where
  "argsort ks = sort_key (\<lambda>i. ks ! i) [0..<length ks]"

primrec first_index :: "real \<Rightarrow> real list \<Rightarrow> nat" where
  "first_index v [] = 0"
| "first_index v (x # xs) = (if x = v then 0 else Suc (first_index v xs))"

definition argmin :: "real list \<Rightarrow> nat" where
  "argmin xs = first_index (min_list xs) xs"

text \<open>
  The state of the matching loop.  \<open>assigned\<close> is a history variable: the pairs (row, column)
  the loop has matched, in the order it matched them.
\<close>

record match_state =
  trk :: ObjectTracker
  used_rows :: "nat set"
  used_cols :: "nat set"
  assigned :: "(nat \<times> nat) list"

text \<open>One iteration of \<open>for row, col in zip(rows, cols)\<close> (lines 122--162).\<close>

definition match_step ::
  "real \<Rightarrow> real list list \<Rightarrow> string list \<Rightarrow> Detection list \<Rightarrow> (real \<times> real) list
     \<Rightarrow> nat \<times> nat \<Rightarrow> match_state \<Rightarrow> error + match_state" where
  "match_step now D object_ids detections input_centroids rc st =
     (case rc of (row, col) \<Rightarrow>
        if row \<in> used_rows st \<or> col \<in> used_cols st then Inr st
        else if D ! row ! col > max_distance (trk st) then Inr st
        else
          let s = trk st;
              tid = object_ids ! row;
              det = detections ! col;
              new_centroid = input_centroids ! col
          in (case map_of (objects s) tid of
                None \<Rightarrow> Inl KeyError
              | Some obj \<Rightarrow>
                  let old_centroid = centroid obj;
                      v = (fst new_centroid - fst old_centroid,
                           snd new_centroid - snd old_centroid);
                      distance = sqrt ((fst v)\<^sup>2 + (snd v)\<^sup>2);
                      obj' = obj\<lparr> centroid := new_centroid,
                                  velocity := v,
                                  bbox := (x1 det, y1 det, x2 det, y2 det),
                                  obj_confidence := confidence det,
                                  hits := hits obj + 1,
                                  time_since_update := 0,
                                  last_seen := now,
                                  trajectory := trajectory_append new_centroid (trajectory obj),
                                  distance_traveled := distance_traveled obj + distance,
                                  age := age obj + 1 \<rparr>
                  in (case map_of (kalman_filters s) tid of
                        None \<Rightarrow> Inl KeyError
                      | Some kf \<Rightarrow>
                          Inr (st\<lparr> trk := s\<lparr> objects := AList.update tid obj' (objects s),
                                             kalman_filters :=
                                               AList.update tid (correct_predict new_centroid kf)
                                                 (kalman_filters s),
                                             disappeared := AList.update tid 0 (disappeared s) \<rparr>,
                                   used_rows := insert row (used_rows st),
                                   used_cols := insert col (used_cols st),
                                   assigned := assigned st @ [(row, col)] \<rparr>))))"

fun match_loop ::
  "real \<Rightarrow> real list list \<Rightarrow> string list \<Rightarrow> Detection list \<Rightarrow> (real \<times> real) list
     \<Rightarrow> (nat \<times> nat) list \<Rightarrow> match_state \<Rightarrow> error + match_state" where
  "match_loop now D object_ids detections input_centroids [] st = Inr st"
| "match_loop now D object_ids detections input_centroids (rc # rest) st =
     (case match_step now D object_ids detections input_centroids rc st of
        Inl e \<Rightarrow> Inl e
      | Inr st' \<Rightarrow> match_loop now D object_ids detections input_centroids rest st')"

text \<open>The processing order of the existing objects, and the candidate column of each.\<close>

definition match_rows :: "real list list \<Rightarrow> nat list" where
  "match_rows D = argsort (map min_list D)"

definition match_cols :: "real list list \<Rightarrow> nat list" where
  "match_cols D = map (\<lambda>r. argmin (D ! r)) (match_rows D)"

text \<open>
  Lines 104--162 of \<open>update\<close>: the distance matrix of a tracker with live objects and a
  non-empty detection list, and the matching loop run on it.
\<close>

definition tracker_matrix :: "Detection list \<Rightarrow> ObjectTracker \<Rightarrow> real list list" where
  "tracker_matrix detections s =
     distance_matrix (map (\<lambda>(oid, obj). centroid obj) (objects s)) (map centroid_of detections)"

definition run_matching :: "real \<Rightarrow> Detection list \<Rightarrow> ObjectTracker \<Rightarrow> error + match_state" where
  "run_matching now detections s =
     (let D = tracker_matrix detections s in
      match_loop now D (map fst (objects s)) detections (map centroid_of detections)
        (zip (match_rows D) (match_cols D))
        \<lparr> trk = s, used_rows = {}, used_cols = {}, assigned = [] \<rparr>)"

text \<open>
  \<open>update\<close>.  The value returned, \<open>self.objects\<close>, is the field \<open>objects\<close> of the resulting
  tracker.  The sets \<open>unused_rows\<close> and \<open>unused_cols\<close> hold small non-negative ints and are
  iterated in ascending order.
\<close>

definition update ::
  "(nat \<Rightarrow> string) \<Rightarrow> real \<Rightarrow> Detection list \<Rightarrow> ObjectTracker \<Rightarrow> error + ObjectTracker" where
  "update uuid now detections s =
     (if detections = [] then mark_all (map fst (disappeared s)) s
      else
        let input_centroids = map centroid_of detections in
        if objects s = [] then Inr (register_all uuid now (zip input_centroids detections) s)
        else
          let object_ids = map fst (objects s);
              D = tracker_matrix detections s
          in (case run_matching now detections s of
                Inl e \<Rightarrow> Inl e
              | Inr st \<Rightarrow>
                  let unused_rows = filter (\<lambda>r. r \<notin> used_rows st) [0..<length D] in
                  (case mark_all (map (\<lambda>r. object_ids ! r) unused_rows) (trk st) of
                     Inl e \<Rightarrow> Inl e
                   | Inr s' \<Rightarrow>
                       let unused_cols =
                             filter (\<lambda>c. c \<notin> used_cols st) [0..<length input_centroids]
                       in Inr (register_all uuid now
                                 (map (\<lambda>c. (input_centroids ! c, detections ! c)) unused_cols)
                                 s'))))"

text \<open>The operations a client can apply to one tracker instance.\<close>

datatype tracker_op =
    Register real "real \<times> real" Detection
  | Deregister string
  | Update real "Detection list"

fun apply_op :: "(nat \<Rightarrow> string) \<Rightarrow> tracker_op \<Rightarrow> ObjectTracker \<Rightarrow> error + ObjectTracker" where
  "apply_op uuid (Register now c det) s = Inr (snd (register uuid now c det s))"
| "apply_op uuid (Deregister tid) s = Inr (deregister tid s)"
| "apply_op uuid (Update now dets) s = update uuid now dets s"

fun apply_ops :: "(nat \<Rightarrow> string) \<Rightarrow> tracker_op list \<Rightarrow> ObjectTracker \<Rightarrow> error + ObjectTracker" where
  "apply_ops uuid [] s = Inr s"
| "apply_ops uuid (x # xs) s =
     (case apply_op uuid x s of Inl e \<Rightarrow> Inl e | Inr s' \<Rightarrow> apply_ops uuid xs s')"

text \<open>The three dicts hold the same keys, in the same order, each once.\<close>

definition same_keys :: "ObjectTracker \<Rightarrow> bool" where
  "same_keys s =
     (map fst (disappeared s) = map fst (objects s)
      \<and> map fst (kalman_filters s) = map fst (objects s)
      \<and> distinct (map fst (objects s)))"

subsection \<open>Auxiliary notions for the tracker's proofs\<close>

text \<open>
  Names for the values the loop bodies build: an object after a skipped frame (\<open>aged\<close>), the
  tracker after counting a skipped frame (\<open>counted\<close>), an object after a match (\<open>moved\<close>) and
  the tracker after a match (\<open>matched\<close>).
\<close>

definition aged :: "TrackedObject \<Rightarrow> TrackedObject" where
  "aged obj = obj\<lparr> time_since_update := time_since_update obj + 1, age := age obj + 1 \<rparr>"

definition counted :: "string \<Rightarrow> int \<Rightarrow> TrackedObject \<Rightarrow> ObjectTracker \<Rightarrow> ObjectTracker" where
  "counted tid n obj s =
     s\<lparr> disappeared := AList.update tid (n + 1) (disappeared s),
        objects := AList.update tid (aged obj) (objects s) \<rparr>"

definition moved :: "real \<Rightarrow> Detection \<Rightarrow> real \<times> real \<Rightarrow> TrackedObject \<Rightarrow> TrackedObject" where
  "moved now det c obj =
     obj\<lparr> centroid := c,
          velocity := (fst c - fst (centroid obj), snd c - snd (centroid obj)),
          bbox := (x1 det, y1 det, x2 det, y2 det),
          obj_confidence := confidence det,
          hits := hits obj + 1,
          time_since_update := 0,
          last_seen := now,
          trajectory := trajectory_append c (trajectory obj),
          distance_traveled := distance_traveled obj
             + sqrt ((fst c - fst (centroid obj))\<^sup>2 + (snd c - snd (centroid obj))\<^sup>2),
          age := age obj + 1 \<rparr>"

definition matched :: "string \<Rightarrow> TrackedObject \<Rightarrow> KalmanFilter \<Rightarrow> ObjectTracker \<Rightarrow> ObjectTracker" where
  "matched tid obj' kf' s =
     s\<lparr> objects := AList.update tid obj' (objects s),
        kalman_filters := AList.update tid kf' (kalman_filters s),
        disappeared := AList.update tid 0 (disappeared s) \<rparr>"

text \<open>
  The invariant of the matching loop, relative to the tracker \<open>s\<close> the loop started from,
  the matrix \<open>D\<close> and the detections' centroids \<open>ics\<close>.
\<close>

definition match_inv ::
  "real list list \<Rightarrow> (real \<times> real) list \<Rightarrow> ObjectTracker \<Rightarrow> match_state \<Rightarrow> bool" where
  "match_inv D ics s st =
     (same_keys (trk st)
      \<and> map fst (objects (trk st)) = map fst (objects s)
      \<and> max_distance (trk st) = max_distance s
      \<and> max_disappeared (trk st) = max_disappeared s
      \<and> issued (trk st) = issued s
      \<and> used_rows st = fst ` set (assigned st)
      \<and> used_cols st = snd ` set (assigned st)
      \<and> distinct (map fst (assigned st))
      \<and> distinct (map snd (assigned st))
      \<and> (\<forall>(r, c) \<in> set (assigned st).
            D ! r ! c \<le> max_distance s \<and> r < length (objects s)
            \<and> (\<exists>obj. map_of (objects (trk st)) (map fst (objects s) ! r) = Some obj
                     \<and> centroid obj = ics ! c))
      \<and> (\<forall>r < length (objects s). r \<notin> used_rows st \<longrightarrow>
            map_of (objects (trk st)) (map fst (objects s) ! r)
              = map_of (objects s) (map fst (objects s) ! r)))"

text \<open>
  What the three dicts hold for one key, and the effect of one skipped frame on it under the
  threshold \<open>md\<close>.
\<close>

type_synonym entry = "TrackedObject option \<times> int option \<times> KalmanFilter option"

definition entry :: "ObjectTracker \<Rightarrow> string \<Rightarrow> entry" where
  "entry s k = (map_of (objects s) k, map_of (disappeared s) k, map_of (kalman_filters s) k)"

fun skipped :: "int \<Rightarrow> entry \<Rightarrow> entry" where
  "skipped md (Some obj, Some n, kf) =
     (if n + 1 > md then (None, None, None) else (Some (aged obj), Some (n + 1), kf))"
| "skipped md e = e"


subsection \<open>Example inputs\<close>

text \<open>A detection of a car with the given centroid, and a tracker holding two cars.\<close>

definition car_at :: "real \<Rightarrow> real \<Rightarrow> Detection" where
  "car_at x y = \<lparr> x1 = x - 1, y1 = y - 1, x2 = x + 1, y2 = y + 1,
                  confidence = 0.9, class_id = 2, label = ''car'' \<rparr>"


section \<open>Camera session registry (\<open>app/services/stream_manager.py\<close>)\<close>

text \<open>\<open>CameraStream\<close>: the camera and its tracker, \<open>None\<close> when there is none.\<close>

record CameraStream =
  camera :: Camera
  tracker :: "ObjectTracker option"

definition CameraStream_init :: "Camera \<Rightarrow> CameraStream" where
  "CameraStream_init cam =
     \<lparr> camera = cam,
       tracker = (if get_flag (features cam) ''tracking'' False
                  then Some ObjectTracker_default else None) \<rparr>"

text \<open>
  \<open>update_features\<close>.  An \<open>ObjectTracker\<close> has neither \<open>__bool__\<close> nor \<open>__len__\<close>, so
  \<open>not self.tracker\<close> holds exactly when the tracker is \<open>None\<close>.
\<close>

definition update_features :: "features \<Rightarrow> CameraStream \<Rightarrow> CameraStream" where
  "update_features fs self =
     (let self1 = self\<lparr> camera := (camera self)\<lparr> features := fs \<rparr> \<rparr> in
      if get_flag fs ''tracking'' False \<and> tracker self1 = None
      then self1\<lparr> tracker := Some ObjectTracker_default \<rparr>
      else if \<not> get_flag fs ''tracking'' False \<and> tracker self1 \<noteq> None
      then self1\<lparr> tracker := None \<rparr>
      else self1)"

text \<open>\<open>StreamManager.active_streams\<close>, a dict from camera id to stream.\<close>

type_synonym StreamManager = "string \<rightharpoonup> CameraStream"

definition add_stream :: "Camera \<Rightarrow> StreamManager \<Rightarrow> bool \<times> StreamManager" where
  "add_stream cam m =
     (if camera_id cam \<in> dom m then (True, m)
      else (True, m(camera_id cam \<mapsto> CameraStream_init cam)))"

definition remove_stream :: "string \<Rightarrow> StreamManager \<Rightarrow> bool \<times> StreamManager" where
  "remove_stream cid m = (if cid \<in> dom m then (True, m(cid := None)) else (False, m))"

definition get_stream :: "string \<Rightarrow> StreamManager \<Rightarrow> CameraStream option" where
  "get_stream cid m = m cid"

definition update_stream_features :: "string \<Rightarrow> features \<Rightarrow> StreamManager \<Rightarrow> StreamManager" where
  "update_stream_features cid fs m =
     (case get_stream cid m of
        None \<Rightarrow> m
      | Some stream \<Rightarrow> m(cid \<mapsto> update_features fs stream))"

text \<open>
  The tracking step of \<open>process_frame_sync\<close>: \<open>stream.tracker.update(detections)\<close> on the
  stream of a camera, when the stream exists and has a tracker.  An exception leaves the
  registry as it was.
\<close>

definition track_frame ::
  "string \<Rightarrow> (nat \<Rightarrow> string) \<Rightarrow> real \<Rightarrow> Detection list \<Rightarrow> StreamManager \<Rightarrow> StreamManager" where
  "track_frame cid uuid now dets m =
     (case get_stream cid m of
        None \<Rightarrow> m
      | Some stream \<Rightarrow>
          (case tracker stream of
             None \<Rightarrow> m
           | Some t \<Rightarrow>
               (case update uuid now dets t of
                  Inl e \<Rightarrow> m
                | Inr t' \<Rightarrow> m(cid \<mapsto> stream\<lparr> tracker := Some t' \<rparr>))))"

text \<open>The operations applied to the registry, and a run of them from the empty registry.\<close>

datatype registry_op =
    AddStream Camera
  | RemoveStream string
  | UpdateStreamFeatures string features
  | TrackFrame string "nat \<Rightarrow> string" real "Detection list"

fun registry_step :: "registry_op \<Rightarrow> StreamManager \<Rightarrow> StreamManager" where
  "registry_step (AddStream cam) m = snd (add_stream cam m)"
| "registry_step (RemoveStream cid) m = snd (remove_stream cid m)"
| "registry_step (UpdateStreamFeatures cid fs) m = update_stream_features cid fs m"
| "registry_step (TrackFrame cid uuid now dets) m = track_frame cid uuid now dets m"

definition run_registry :: "registry_op list \<Rightarrow> StreamManager" where
  "run_registry xs = fold registry_step xs Map.empty"

text \<open>The tracking flag of a feature dict, and the invariant of the registry's streams.\<close>

definition tracking_on :: "features \<Rightarrow> bool" where
  "tracking_on fs = get_flag fs ''tracking'' False"

definition streams_inv :: "StreamManager \<Rightarrow> bool" where
  "streams_inv m = (\<forall>cid stream. m cid = Some stream \<longrightarrow>
      (tracker stream \<noteq> None) = tracking_on (features (camera stream)))"

text \<open>An example camera with tracking and speed enabled, calibrated at 100 pixels per metre.\<close>

definition gate_camera :: Camera where
  "gate_camera =
     \<lparr> camera_id = ''cam1'', camera_name = ''gate'', fps = 15, is_calibrated = True,
       pixels_per_meter = Some 100,
       features = [''tracking'' \<mapsto> Flag True, ''speed'' \<mapsto> Flag True] \<rparr>"

section \<open>Properties of the frame-rate governor\<close>

lemma offer_frames_governor_spec:
  assumes "0 < tf" "frame_interval g = 1 / tf"
  shows "offer_frames g ts = governor_spec tf (last_frame_time g) ts"
  using assms
proof (induction ts arbitrary: g)
  case Nil
  then show ?case by simp
next
  case (Cons t ts)
  show ?case
  proof (cases "last_frame_time g")
    case None
    then show ?thesis using Cons
      by (simp add: should_process_frame_def)
  next
    case (Some l)
    then show ?thesis using Cons
      by (simp add: should_process_frame_def Let_def)
  qed
qed

text \<open>
  C3.  For a positive target rate, a fresh governor accepts the first frame it is offered
  whatever the clock reads; on every sequence of offered frames its decisions are those of the
  specification (a later frame is accepted iff the time elapsed since the last accepted frame
  is at least \<open>1 / target_fps\<close>); and with \<open>target_fps = 10\<close> and frames offered at
  \<open>t = 0, 0.05, 0.12, 0.21\<close> it accepts the frames at \<open>0\<close> and \<open>0.12\<close> and drops the other two.
\<close>

theorem governor_accepts:
  assumes "0 < tf"
  shows "fst (should_process_frame t (FPSRateLimiter_init tf t0))
       \<and> offer_frames (FPSRateLimiter_init tf t0) ts = governor_spec tf None ts
       \<and> offer_frames (FPSRateLimiter_init 10 t0) [0, 0.05, 0.12, 0.21]
           = [True, False, True, False]"
proof -
  have a: "offer_frames (FPSRateLimiter_init tf t0) ts = governor_spec tf None ts"
    using offer_frames_governor_spec [of tf "FPSRateLimiter_init tf t0" ts] assms
    by (simp add: FPSRateLimiter_init_def)
  have b: "offer_frames (FPSRateLimiter_init 10 t0) [0, 0.05, 0.12, 0.21]
             = [True, False, True, False]"
    by (simp add: FPSRateLimiter_init_def should_process_frame_def Let_def)
  have c: "fst (should_process_frame t (FPSRateLimiter_init tf t0))"
    by (simp add: FPSRateLimiter_init_def should_process_frame_def)
  show ?thesis using a b c by blast
qed

theorem governor_accepts_witness:
  "(0::real) < 10
   \<and> offer_frames (FPSRateLimiter_init 10 0) [0, 0.05, 0.12, 0.21]
       = governor_spec 10 None [0, 0.05, 0.12, 0.21]
   \<and> governor_spec 10 None [0, 0.05, 0.12, 0.21] = [True, False, True, False]"
  using governor_accepts [where tf = 10 and t = 0 and ?t0.0 = 0 and ts = "[0, 0.05, 0.12, 0.21]"]
  by simp

section \<open>Properties of the calibration\<close>






section \<open>Properties of the object tracker\<close>

lemma keys_update:
  "map fst (AList.update k v al) = (if k \<in> set (map fst al) then map fst al else map fst al @ [k])"
  by (simp add: update_keys image_iff)

lemma same_keys_init: "same_keys (ObjectTracker_init md mx)"
  by (simp add: same_keys_def ObjectTracker_init_def)

lemma same_keys_register: "same_keys s \<Longrightarrow> same_keys (snd (register uuid now c det s))"
  by (simp add: same_keys_def register_def Let_def keys_update)

lemma same_keys_deregister: "same_keys s \<Longrightarrow> same_keys (deregister tid s)"
  by (simp add: same_keys_def deregister_def delete_keys distinct_removeAll)

lemma objects_deregister: "map fst (objects (deregister tid s)) = removeAll tid (map fst (objects s))"
  by (simp add: deregister_def delete_keys)

lemma map_of_keys_Some: "k \<in> set (map fst al) \<Longrightarrow> \<exists>v. map_of al k = Some v"
  by (metis domD dom_map_of_conv_image_fst list.set_map)

lemma mark_disappeared_eq:
  assumes "map_of (disappeared s) tid = Some n" "map_of (objects s) tid = Some obj"
  shows "mark_disappeared tid s =
     Inr (if n + 1 > max_disappeared s then deregister tid (counted tid n obj s)
          else counted tid n obj s)"
  using assms by (simp add: mark_disappeared_def Let_def counted_def aged_def)

lemma same_keys_counted:
  assumes "same_keys s" "tid \<in> set (map fst (objects s))"
  shows "same_keys (counted tid n obj s)"
    and "map fst (objects (counted tid n obj s)) = map fst (objects s)"
  using assms by (simp_all add: same_keys_def counted_def keys_update)

lemma counted_fields [simp]:
  "max_disappeared (counted tid n obj s) = max_disappeared s"
  "max_distance (counted tid n obj s) = max_distance s"
  "issued (counted tid n obj s) = issued s"
  "kalman_filters (counted tid n obj s) = kalman_filters s"
  by (simp_all add: counted_def)

lemma deregister_fields [simp]:
  "max_disappeared (deregister tid s) = max_disappeared s"
  "max_distance (deregister tid s) = max_distance s"
  "issued (deregister tid s) = issued s"
  by (simp_all add: deregister_def)

lemma mark_disappeared_ok:
  assumes "same_keys s" "tid \<in> set (map fst (objects s))"
  shows "\<exists>s'. mark_disappeared tid s = Inr s' \<and> same_keys s'
     \<and> max_disappeared s' = max_disappeared s \<and> max_distance s' = max_distance s
     \<and> issued s' = issued s
     \<and> (map fst (objects s') = map fst (objects s)
        \<or> map fst (objects s') = removeAll tid (map fst (objects s)))"
proof -
  obtain obj where o: "map_of (objects s) tid = Some obj"
    using map_of_keys_Some [OF assms(2)] ..
  have "tid \<in> set (map fst (disappeared s))"
    using assms by (simp add: same_keys_def)
  from map_of_keys_Some [OF this]
  obtain n where n: "map_of (disappeared s) tid = Some n" ..
  let ?c = "counted tid n obj s"
  have c1: "same_keys ?c" and c2: "map fst (objects ?c) = map fst (objects s)"
    using same_keys_counted [OF assms] by blast+
  show ?thesis
  proof (cases "n + 1 > max_disappeared s")
    case True
    have e: "mark_disappeared tid s = Inr (deregister tid ?c)"
      using mark_disappeared_eq [OF n o] True by simp
    have "same_keys (deregister tid ?c)" by (rule same_keys_deregister [OF c1])
    moreover have "map fst (objects (deregister tid ?c)) = removeAll tid (map fst (objects s))"
      by (simp only: objects_deregister c2)
    ultimately show ?thesis using e by simp
  next
    case False
    have e: "mark_disappeared tid s = Inr ?c"
      using mark_disappeared_eq [OF n o] False by simp
    show ?thesis using e c1 c2 by simp
  qed
qed

lemma mark_all_ok:
  assumes "same_keys s" "set tids \<subseteq> set (map fst (objects s))" "distinct tids"
  shows "\<exists>s'. mark_all tids s = Inr s' \<and> same_keys s'
     \<and> max_disappeared s' = max_disappeared s \<and> max_distance s' = max_distance s
     \<and> issued s' = issued s
     \<and> set (map fst (objects s')) \<subseteq> set (map fst (objects s))"
  using assms
proof (induction tids arbitrary: s)
  case Nil
  then show ?case by simp
next
  case (Cons tid tids)
  then have "tid \<in> set (map fst (objects s))" by simp
  from mark_disappeared_ok [OF Cons.prems(1) this]
  obtain s1 where s1: "mark_disappeared tid s = Inr s1" "same_keys s1"
     "max_disappeared s1 = max_disappeared s" "max_distance s1 = max_distance s" "issued s1 = issued s"
     "map fst (objects s1) = map fst (objects s)
        \<or> map fst (objects s1) = removeAll tid (map fst (objects s))"
    by blast
  have k: "set (map fst (objects s1)) = set (map fst (objects s))
        \<or> set (map fst (objects s1)) = set (map fst (objects s)) - {tid}"
    using s1(6) by (metis set_removeAll)
  have sub: "set tids \<subseteq> set (map fst (objects s1))"
    using k Cons.prems(2,3) by auto
  have d: "distinct tids" using Cons.prems(3) by simp
  from Cons.IH [OF s1(2) sub d]
  obtain s2 where s2: "mark_all tids s1 = Inr s2" "same_keys s2"
     "max_disappeared s2 = max_disappeared s1" "max_distance s2 = max_distance s1" "issued s2 = issued s1"
     "set (map fst (objects s2)) \<subseteq> set (map fst (objects s1))"
    by blast
  have "set (map fst (objects s1)) \<subseteq> set (map fst (objects s))"
    using k by auto
  then show ?case using s1 s2 by auto
qed

lemma centroid_moved [simp]: "centroid (moved now det c obj) = c"
  by (simp add: moved_def)

lemma matched_fields [simp]:
  "max_disappeared (matched tid obj' kf' s) = max_disappeared s"
  "max_distance (matched tid obj' kf' s) = max_distance s"
  "issued (matched tid obj' kf' s) = issued s"
  by (simp_all add: matched_def)

lemma same_keys_matched:
  assumes "same_keys s" "tid \<in> set (map fst (objects s))"
  shows "same_keys (matched tid obj' kf' s)"
    and "map fst (objects (matched tid obj' kf' s)) = map fst (objects s)"
  using assms by (simp_all add: same_keys_def matched_def keys_update)

lemma objects_matched:
  "map_of (objects (matched tid obj' kf' s)) k
     = (if k = tid then Some obj' else map_of (objects s) k)"
  by (simp add: matched_def update_conv')

lemma match_step_skip:
  "row \<in> used_rows st \<or> col \<in> used_cols st \<or> D ! row ! col > max_distance (trk st)
   \<Longrightarrow> match_step now D ids dets ics (row, col) st = Inr st"
  by (auto simp: match_step_def)

lemma match_step_take:
  assumes "row \<notin> used_rows st" "col \<notin> used_cols st" "D ! row ! col \<le> max_distance (trk st)"
    "map_of (objects (trk st)) (ids ! row) = Some obj"
    "map_of (kalman_filters (trk st)) (ids ! row) = Some kf"
  shows "match_step now D ids dets ics (row, col) st =
     Inr (st\<lparr> trk := matched (ids ! row) (moved now (dets ! col) (ics ! col) obj)
                        (correct_predict (ics ! col) kf) (trk st),
              used_rows := insert row (used_rows st),
              used_cols := insert col (used_cols st),
              assigned := assigned st @ [(row, col)] \<rparr>)"
  using assms by (simp add: match_step_def Let_def moved_def matched_def)

lemma match_inv_start: "same_keys s \<Longrightarrow>
  match_inv D ics s \<lparr> trk = s, used_rows = {}, used_cols = {}, assigned = [] \<rparr>"
  by (simp add: match_inv_def)

lemma match_step_inv:
  assumes inv: "match_inv D ics s st" and row: "row < length (objects s)"
  shows "\<exists>st'. match_step now D (map fst (objects s)) dets ics (row, col) st = Inr st'
      \<and> match_inv D ics s st'
      \<and> (assigned st' = assigned st \<or> assigned st' = assigned st @ [(row, col)])"
proof (cases "row \<in> used_rows st \<or> col \<in> used_cols st \<or> D ! row ! col > max_distance (trk st)")
  case True
  from match_step_skip [OF this] inv show ?thesis by simp
next
  case False
  let ?ids = "map fst (objects s)"
  let ?t = "trk st"
  have sk: "same_keys ?t" and keys: "map fst (objects ?t) = ?ids"
    and md: "max_distance ?t = max_distance s"
    using inv by (simp_all add: match_inv_def)
  have dist: "distinct ?ids" using sk keys by (simp add: same_keys_def)
  have mem: "?ids ! row \<in> set (map fst (objects ?t))"
    using row keys by (metis length_map nth_mem)
  obtain obj where o: "map_of (objects ?t) (?ids ! row) = Some obj"
    using map_of_keys_Some [OF mem] ..
  have "?ids ! row \<in> set (map fst (kalman_filters ?t))"
    using mem sk by (simp add: same_keys_def)
  from map_of_keys_Some [OF this]
  obtain kf where k: "map_of (kalman_filters ?t) (?ids ! row) = Some kf" ..
  let ?obj' = "moved now (dets ! col) (ics ! col) obj"
  let ?t' = "matched (?ids ! row) ?obj' (correct_predict (ics ! col) kf) ?t"
  let ?st' = "st\<lparr> trk := ?t', used_rows := insert row (used_rows st),
                  used_cols := insert col (used_cols st),
                  assigned := assigned st @ [(row, col)] \<rparr>"
  have r1: "row \<notin> used_rows st" and r2: "col \<notin> used_cols st"
    and r3: "D ! row ! col \<le> max_distance ?t"
    using False by auto
  have step: "match_step now D ?ids dets ics (row, col) st = Inr ?st'"
    by (rule match_step_take [OF r1 r2 r3 o k])
  have other: "map_of (objects ?t') (?ids ! r) = map_of (objects ?t) (?ids ! r)"
    if "r < length (objects s)" "r \<noteq> row" for r
  proof -
    have "r < length ?ids" "row < length ?ids" using that row by simp_all
    then have "?ids ! r \<noteq> ?ids ! row"
      using that(2) dist nth_eq_iff_index_eq by blast
    then show ?thesis by (simp add: objects_matched)
  qed
  have ur: "used_rows st = fst ` set (assigned st)" and uc: "used_cols st = snd ` set (assigned st)"
    and d1: "distinct (map fst (assigned st))" and d2: "distinct (map snd (assigned st))"
    using inv by (simp_all add: match_inv_def)
  have old: "\<forall>(r, c) \<in> set (assigned st).
            D ! r ! c \<le> max_distance s \<and> r < length (objects s)
            \<and> (\<exists>obj. map_of (objects ?t) (?ids ! r) = Some obj \<and> centroid obj = ics ! c)"
    using inv by (simp add: match_inv_def)
  have unused: "\<forall>r < length (objects s). r \<notin> used_rows st \<longrightarrow>
            map_of (objects ?t) (?ids ! r) = map_of (objects s) (?ids ! r)"
    using inv by (simp add: match_inv_def)
  have a: "same_keys ?t'" "map fst (objects ?t') = ?ids"
    using same_keys_matched [OF sk mem] keys by simp_all
  have b: "\<forall>(r, c) \<in> set (assigned st @ [(row, col)]).
            D ! r ! c \<le> max_distance s \<and> r < length (objects s)
            \<and> (\<exists>obj. map_of (objects ?t') (?ids ! r) = Some obj \<and> centroid obj = ics ! c)"
  proof (clarify)
    fix r c assume rc: "(r, c) \<in> set (assigned st @ [(row, col)])"
    show "D ! r ! c \<le> max_distance s \<and> r < length (objects s)
            \<and> (\<exists>obj. map_of (objects ?t') (?ids ! r) = Some obj \<and> centroid obj = ics ! c)"
    proof (cases "(r, c) = (row, col)")
      case True
      then show ?thesis using r3 md row by (simp add: objects_matched)
    next
      case False
      then have in_old: "(r, c) \<in> set (assigned st)" using rc by auto
      then have "r \<in> used_rows st" using ur by (metis fst_conv image_eqI)
      then have ne: "r \<noteq> row" using r1 by auto
      from old in_old have p: "D ! r ! c \<le> max_distance s \<and> r < length (objects s)
            \<and> (\<exists>obj. map_of (objects ?t) (?ids ! r) = Some obj \<and> centroid obj = ics ! c)"
        by auto
      then have eq: "map_of (objects ?t') (?ids ! r) = map_of (objects ?t) (?ids ! r)"
        using other [of r] ne by blast
      show ?thesis unfolding eq using p by blast
    qed
  qed
  have c: "\<forall>r < length (objects s). r \<notin> insert row (used_rows st) \<longrightarrow>
            map_of (objects ?t') (?ids ! r) = map_of (objects s) (?ids ! r)"
    using unused other by auto
  have d: "distinct (map fst (assigned st @ [(row, col)]))"
       "distinct (map snd (assigned st @ [(row, col)]))"
    using d1 d2 r1 r2 ur uc by auto
  have e: "insert row (used_rows st) = fst ` set (assigned st @ [(row, col)])"
       "insert col (used_cols st) = snd ` set (assigned st @ [(row, col)])"
    using ur uc by auto
  have p: "max_distance ?t' = max_distance s" "max_disappeared ?t' = max_disappeared s"
       "issued ?t' = issued s"
    using inv by (simp_all add: match_inv_def)
  have f: "trk ?st' = ?t'" "used_rows ?st' = insert row (used_rows st)"
       "used_cols ?st' = insert col (used_cols st)"
       "assigned ?st' = assigned st @ [(row, col)]"
    by simp_all
  have "match_inv D ics s ?st'"
    unfolding match_inv_def f
    by (intro conjI a b c d e p)
  then show ?thesis using step by simp
qed

lemma match_loop_inv:
  assumes "match_inv D ics s st" "\<forall>rc \<in> set pairs. fst rc < length (objects s)"
  shows "\<exists>st'. match_loop now D (map fst (objects s)) dets ics pairs st = Inr st'
      \<and> match_inv D ics s st'
      \<and> (\<exists>ys. assigned st' = assigned st @ ys \<and> subseq ys pairs)"
  using assms
proof (induction pairs arbitrary: st)
  case Nil
  then show ?case by simp
next
  case (Cons rc pairs)
  obtain row col where rc: "rc = (row, col)" by (cases rc)
  have row: "row < length (objects s)" using Cons.prems(2) rc by simp
  from match_step_inv [OF Cons.prems(1) row, of now dets col]
  obtain st1 where s1: "match_step now D (map fst (objects s)) dets ics (row, col) st = Inr st1"
      "match_inv D ics s st1"
      "assigned st1 = assigned st \<or> assigned st1 = assigned st @ [(row, col)]"
    by blast
  have rest: "\<forall>rc \<in> set pairs. fst rc < length (objects s)" using Cons.prems(2) by simp
  from Cons.IH [OF s1(2) rest]
  obtain st2 ys where s2: "match_loop now D (map fst (objects s)) dets ics pairs st1 = Inr st2"
      "match_inv D ics s st2" "assigned st2 = assigned st1 @ ys" "subseq ys pairs"
    by blast
  have run: "match_loop now D (map fst (objects s)) dets ics (rc # pairs) st = Inr st2"
    using s1(1) s2(1) rc by simp
  from s1(3) have "\<exists>zs. assigned st2 = assigned st @ zs \<and> subseq zs (rc # pairs)"
  proof
    assume "assigned st1 = assigned st"
    then have "assigned st2 = assigned st @ ys" using s2(3) by simp
    moreover have "subseq ys (rc # pairs)" using s2(4) by (rule list_emb_Cons)
    ultimately show ?thesis by blast
  next
    assume "assigned st1 = assigned st @ [(row, col)]"
    then have "assigned st2 = assigned st @ (rc # ys)" using s2(3) rc by simp
    moreover have "subseq (rc # ys) (rc # pairs)" using s2(4) by simp
    ultimately show ?thesis by blast
  qed
  then show ?case using run s2(2) by blast
qed

lemma length_tracker_matrix [simp]: "length (tracker_matrix dets s) = length (objects s)"
  by (simp add: tracker_matrix_def distance_matrix_def)


lemma set_match_rows [simp]: "set (match_rows D) = {..<length D}"
  by (auto simp: match_rows_def argsort_def)

lemma distinct_match_rows [simp]: "distinct (match_rows D)"
  by (simp add: match_rows_def argsort_def)







lemma register_fields [simp]:
  "max_disappeared (snd (register uuid now c det s)) = max_disappeared s"
  "max_distance (snd (register uuid now c det s)) = max_distance s"
  by (simp_all add: register_def Let_def)

lemma register_all_ok:
  "same_keys s \<Longrightarrow> same_keys (register_all uuid now cds s)
     \<and> max_disappeared (register_all uuid now cds s) = max_disappeared s
     \<and> max_distance (register_all uuid now cds s) = max_distance s"
proof (induction cds arbitrary: s)
  case Nil
  then show ?case by simp
next
  case (Cons cd cds)
  obtain c det where cd: "cd = (c, det)" by (cases cd)
  have "same_keys (snd (register uuid now c det s))"
    using Cons.prems by (rule same_keys_register)
  from Cons.IH [OF this] show ?case using cd by simp
qed

lemma run_matching_ok:
  assumes "same_keys s"
  shows "\<exists>st. run_matching now dets s = Inr st
     \<and> match_inv (tracker_matrix dets s) (map centroid_of dets) s st
     \<and> subseq (assigned st)
          (zip (match_rows (tracker_matrix dets s)) (match_cols (tracker_matrix dets s)))"
proof -
  let ?D = "tracker_matrix dets s"
  let ?pairs = "zip (match_rows ?D) (match_cols ?D)"
  have rows: "\<forall>rc \<in> set ?pairs. fst rc < length (objects s)"
  proof
    fix rc assume "rc \<in> set ?pairs"
    then have "fst rc \<in> set (match_rows ?D)" by (metis in_set_zipE prod.collapse)
    then show "fst rc < length (objects s)" by simp
  qed
  from match_loop_inv [OF match_inv_start [OF assms] rows, where now = now and dets = dets]
  obtain st ys where "match_loop now ?D (map fst (objects s)) dets (map centroid_of dets) ?pairs
       \<lparr> trk = s, used_rows = {}, used_cols = {}, assigned = [] \<rparr> = Inr st"
     "match_inv ?D (map centroid_of dets) s st"
     "assigned st = assigned \<lparr> trk = s, used_rows = {}, used_cols = {}, assigned = [] \<rparr> @ ys"
     "subseq ys ?pairs"
    by blast
  then show ?thesis by (simp add: run_matching_def Let_def)
qed

lemma distinct_nth_filter:
  assumes "distinct ids"
  shows "distinct (map (\<lambda>r. ids ! r) (filter P [0..<length ids]))"
proof -
  have "inj_on (\<lambda>r. ids ! r) (set (filter P [0..<length ids]))"
    using assms by (auto simp: inj_on_def nth_eq_iff_index_eq)
  then show ?thesis by (simp add: distinct_map)
qed

lemma update_ok:
  assumes "same_keys s"
  shows "\<exists>s'. update uuid now dets s = Inr s' \<and> same_keys s'
     \<and> max_disappeared s' = max_disappeared s \<and> max_distance s' = max_distance s"
proof (cases "dets = []")
  case True
  have "set (map fst (disappeared s)) \<subseteq> set (map fst (objects s))"
       "distinct (map fst (disappeared s))"
    using assms by (simp_all add: same_keys_def)
  from mark_all_ok [OF assms this] show ?thesis using True by (auto simp: update_def)
next
  case False
  show ?thesis
  proof (cases "objects s = []")
    case True
    then show ?thesis using False register_all_ok [OF assms] by (simp add: update_def Let_def)
  next
    case nonempty: False
    let ?D = "tracker_matrix dets s"
    let ?ids = "map fst (objects s)"
    from run_matching_ok [OF assms, of now dets]
    obtain st where st: "run_matching now dets s = Inr st"
        "match_inv ?D (map centroid_of dets) s st" by blast
    let ?unused = "filter (\<lambda>r. r \<notin> used_rows st) [0..<length ?D]"
    have sk: "same_keys (trk st)" and keys: "map fst (objects (trk st)) = ?ids"
      and p: "max_disappeared (trk st) = max_disappeared s" "max_distance (trk st) = max_distance s"
      using st(2) by (simp_all add: match_inv_def)
    have dist: "distinct ?ids" using sk keys by (simp add: same_keys_def)
    have sub: "set (map (\<lambda>r. ?ids ! r) ?unused) \<subseteq> set (map fst (objects (trk st)))"
    proof
      fix k assume "k \<in> set (map (\<lambda>r. ?ids ! r) ?unused)"
      then obtain r where "r < length ?ids" "k = ?ids ! r" by auto
      then have "k \<in> set ?ids" using nth_mem by blast
      then show "k \<in> set (map fst (objects (trk st)))" using keys by simp
    qed
    have d: "distinct (map (\<lambda>r. ?ids ! r) ?unused)"
      using distinct_nth_filter [OF dist, of "\<lambda>r. r \<notin> used_rows st"] by simp
    from mark_all_ok [OF sk sub d]
    obtain s1 where s1: "mark_all (map (\<lambda>r. ?ids ! r) ?unused) (trk st) = Inr s1" "same_keys s1"
        "max_disappeared s1 = max_disappeared (trk st)" "max_distance s1 = max_distance (trk st)"
      by blast
    let ?new = "map (\<lambda>c. (map centroid_of dets ! c, dets ! c))
                  (filter (\<lambda>c. c \<notin> used_cols st) [0..<length (map centroid_of dets)])"
    have "update uuid now dets s = Inr (register_all uuid now ?new s1)"
      using False nonempty st(1) s1(1) by (simp add: update_def Let_def)
    then show ?thesis using register_all_ok [OF s1(2), of uuid now ?new] s1 p by simp
  qed
qed

lemma apply_op_ok:
  assumes "same_keys s"
  shows "\<exists>s'. apply_op uuid x s = Inr s' \<and> same_keys s'"
proof (cases x)
  case (Register now c det)
  then show ?thesis using same_keys_register [OF assms] by simp
next
  case (Deregister tid)
  then show ?thesis using same_keys_deregister [OF assms] by simp
next
  case (Update now dets)
  then show ?thesis using update_ok [OF assms, of uuid now dets] by auto
qed

lemma apply_ops_ok:
  assumes "same_keys s"
  shows "\<exists>s'. apply_ops uuid xs s = Inr s' \<and> same_keys s'"
  using assms
proof (induction xs arbitrary: s)
  case Nil
  then show ?case by simp
next
  case (Cons x xs)
  from apply_op_ok [OF Cons.prems, of uuid x]
  obtain s1 where s1: "apply_op uuid x s = Inr s1" "same_keys s1" by blast
  from Cons.IH [OF s1(2)] show ?case using s1(1) by simp
qed




lemma entry_counted:
  "entry (counted tid n obj s) k =
     (if k = tid then (Some (aged obj), Some (n + 1), map_of (kalman_filters s) tid)
      else entry s k)"
  by (simp add: entry_def counted_def update_conv')

lemma entry_deregister:
  "entry (deregister tid s) k = (if k = tid then (None, None, None) else entry s k)"
  by (simp add: entry_def deregister_def delete_conv')

lemma mark_disappeared_entry:
  assumes "map_of (disappeared s) tid = Some n" "map_of (objects s) tid = Some obj"
    and "mark_disappeared tid s = Inr s'"
  shows "entry s' k = (if k = tid then skipped (max_disappeared s) (entry s k) else entry s k)"
proof (cases "n + 1 > max_disappeared s")
  case True
  then have "s' = deregister tid (counted tid n obj s)"
    using mark_disappeared_eq [OF assms(1,2)] assms(3) by simp
  then show ?thesis using True assms(1,2)
    by (simp add: entry_deregister entry_counted) (simp add: entry_def)
next
  case False
  then have "s' = counted tid n obj s"
    using mark_disappeared_eq [OF assms(1,2)] assms(3) by simp
  then show ?thesis using False assms(1,2)
    by (simp add: entry_counted) (simp add: entry_def)
qed

lemma mark_all_entry:
  assumes "same_keys s" "set tids \<subseteq> set (map fst (objects s))" "distinct tids"
    and "mark_all tids s = Inr s'"
  shows "entry s' k = (if k \<in> set tids then skipped (max_disappeared s) (entry s k) else entry s k)"
  using assms
proof (induction tids arbitrary: s)
  case Nil
  then show ?case by simp
next
  case (Cons tid tids)
  have mem: "tid \<in> set (map fst (objects s))" using Cons.prems(2) by simp
  obtain obj where o: "map_of (objects s) tid = Some obj"
    using map_of_keys_Some [OF mem] ..
  have "tid \<in> set (map fst (disappeared s))"
    using mem Cons.prems(1) by (simp add: same_keys_def)
  from map_of_keys_Some [OF this]
  obtain n where n: "map_of (disappeared s) tid = Some n" ..
  from mark_disappeared_ok [OF Cons.prems(1) mem]
  obtain s1 where s1: "mark_disappeared tid s = Inr s1" "same_keys s1"
     "max_disappeared s1 = max_disappeared s"
     "map fst (objects s1) = map fst (objects s)
        \<or> map fst (objects s1) = removeAll tid (map fst (objects s))"
    by blast
  have k1: "set (map fst (objects s1)) = set (map fst (objects s))
        \<or> set (map fst (objects s1)) = set (map fst (objects s)) - {tid}"
    using s1(4) by (metis set_removeAll)
  have sub: "set tids \<subseteq> set (map fst (objects s1))"
    using k1 Cons.prems(2,3) by auto
  have d: "distinct tids" and notin: "tid \<notin> set tids" using Cons.prems(3) by simp_all
  have rest: "mark_all tids s1 = Inr s'" using Cons.prems(4) s1(1) by simp
  have e1: "entry s1 k = (if k = tid then skipped (max_disappeared s) (entry s k) else entry s k)"
    by (rule mark_disappeared_entry [OF n o s1(1)])
  have e2: "entry s' k = (if k \<in> set tids then skipped (max_disappeared s) (entry s1 k)
                          else entry s1 k)"
    using Cons.IH [OF s1(2) sub d rest] s1(3) by simp
  show ?case
  proof (cases "k = tid")
    case True
    then show ?thesis using e1 e2 notin by simp
  next
    case False
    then show ?thesis using e1 e2 by simp
  qed
qed

text \<open>
  C1.  In every tracker state reached by the tracker's operations, \<open>update\<close> with an empty
  detection list does not raise; every live object whose skipped-frame count then exceeds
  \<open>max_disappeared\<close> (30 by default) is removed from the three dicts, and every other live
  object stays, with \<open>time_since_update\<close> and \<open>age\<close> one higher, its count one higher and
  its Kalman filter untouched; no object appears that was not there.  The dict returned is the
  field \<open>objects\<close> of the result.
\<close>

theorem update_empty:
  assumes reach: "apply_ops uuid0 ops (ObjectTracker_init md mx) = Inr s"
  shows "\<exists>s'. update uuid now [] s = Inr s'
     \<and> (\<forall>tid obj n. map_of (objects s) tid = Some obj \<and> map_of (disappeared s) tid = Some n \<longrightarrow>
           (if n + 1 > max_disappeared s
            then map_of (objects s') tid = None \<and> map_of (disappeared s') tid = None
                 \<and> map_of (kalman_filters s') tid = None
            else map_of (objects s') tid
                   = Some (obj\<lparr> time_since_update := time_since_update obj + 1,
                                 age := age obj + 1 \<rparr>)
                 \<and> map_of (disappeared s') tid = Some (n + 1)
                 \<and> map_of (kalman_filters s') tid = map_of (kalman_filters s) tid))
     \<and> (\<forall>tid. map_of (objects s) tid = None \<longrightarrow> map_of (objects s') tid = None)
     \<and> max_disappeared s' = max_disappeared s
     \<and> max_disappeared ObjectTracker_default = 30"
proof -
  have sk0: "same_keys (ObjectTracker_init md mx)" by (rule same_keys_init)
  from apply_ops_ok [OF sk0, of uuid0 ops] reach have sk: "same_keys s" by auto
  let ?tids = "map fst (disappeared s)"
  have keys: "?tids = map fst (objects s)" using sk by (simp add: same_keys_def)
  have sub: "set ?tids \<subseteq> set (map fst (objects s))" and d: "distinct ?tids"
    using sk by (simp_all add: same_keys_def)
  from mark_all_ok [OF sk sub d]
  obtain s' where s': "mark_all ?tids s = Inr s'" "max_disappeared s' = max_disappeared s"
    by blast
  have u: "update uuid now [] s = Inr s'" using s'(1) by (simp add: update_def)
  have ent: "entry s' k = (if k \<in> set ?tids then skipped (max_disappeared s) (entry s k)
                           else entry s k)" for k
    by (rule mark_all_entry [OF sk sub d s'(1)])
  have a: "\<forall>tid obj n. map_of (objects s) tid = Some obj \<and> map_of (disappeared s) tid = Some n \<longrightarrow>
           (if n + 1 > max_disappeared s
            then map_of (objects s') tid = None \<and> map_of (disappeared s') tid = None
                 \<and> map_of (kalman_filters s') tid = None
            else map_of (objects s') tid
                   = Some (obj\<lparr> time_since_update := time_since_update obj + 1,
                                 age := age obj + 1 \<rparr>)
                 \<and> map_of (disappeared s') tid = Some (n + 1)
                 \<and> map_of (kalman_filters s') tid = map_of (kalman_filters s) tid)"
  proof (intro allI impI)
    fix tid obj n
    assume h: "map_of (objects s) tid = Some obj \<and> map_of (disappeared s) tid = Some n"
    then have "tid \<in> set ?tids"
      by (metis domI dom_map_of_conv_image_fst list.set_map)
    then have "entry s' tid = skipped (max_disappeared s) (entry s tid)" using ent by simp
    then show "if n + 1 > max_disappeared s
            then map_of (objects s') tid = None \<and> map_of (disappeared s') tid = None
                 \<and> map_of (kalman_filters s') tid = None
            else map_of (objects s') tid
                   = Some (obj\<lparr> time_since_update := time_since_update obj + 1,
                                 age := age obj + 1 \<rparr>)
                 \<and> map_of (disappeared s') tid = Some (n + 1)
                 \<and> map_of (kalman_filters s') tid = map_of (kalman_filters s) tid"
      using h by (auto simp: entry_def aged_def split: if_splits)
  qed
  have b: "\<forall>tid. map_of (objects s) tid = None \<longrightarrow> map_of (objects s') tid = None"
  proof (intro allI impI)
    fix tid assume h: "map_of (objects s) tid = None"
    then have "tid \<notin> set ?tids" unfolding keys
      by (metis domIff dom_map_of_conv_image_fst list.set_map option.distinct(1) map_of_keys_Some)
    then have "entry s' tid = entry s tid" using ent by simp
    then show "map_of (objects s') tid = None" using h by (simp add: entry_def)
  qed
  have c: "max_disappeared ObjectTracker_default = 30"
    by (simp add: ObjectTracker_default_def ObjectTracker_init_def)
  show ?thesis
    by (intro exI [of _ s'] conjI u a b s'(2) c)
qed









text \<open>
  C9.  Every sequence of register, deregister and update operations on a new tracker runs
  without raising, and leaves the dicts \<open>objects\<close>, \<open>disappeared\<close> and \<open>kalman_filters\<close>
  with the same set of keys.
\<close>

theorem tracker_maps_same_keys:
  "\<exists>s. apply_ops uuid ops (ObjectTracker_init md mx) = Inr s
     \<and> fst ` set (objects s) = fst ` set (disappeared s)
     \<and> fst ` set (kalman_filters s) = fst ` set (objects s)"
proof -
  from apply_ops_ok [OF same_keys_init, of uuid ops md mx]
  obtain s where s: "apply_ops uuid ops (ObjectTracker_init md mx) = Inr s" "same_keys s"
    by blast
  have "set (map fst (objects s)) = set (map fst (disappeared s))"
       "set (map fst (kalman_filters s)) = set (map fst (objects s))"
    using s(2) by (simp_all add: same_keys_def)
  then have "fst ` set (objects s) = fst ` set (disappeared s)"
       "fst ` set (kalman_filters s) = fst ` set (objects s)"
    by (simp_all only: set_map)
  then show ?thesis using s(1) by blast
qed

lemmas tracker_eval =
  update_def run_matching_def tracker_matrix_def distance_matrix_def match_rows_def
  match_cols_def argsort_def argmin_def match_step_def norm2_def correct_predict_def
  ObjectTracker_init_def centroid_of_def register_def Let_def trajectory_append_def
  create_kalman_filter_def mark_disappeared_def deregister_def car_at_def

theorem update_empty_witness:
  "\<exists>s'. update (\<lambda>n. ''a'') 1 []
          (snd (register (\<lambda>n. ''a'') 0 (1, 1) (car_at 1 1) (ObjectTracker_init 0 100))) = Inr s'
      \<and> map_of (objects s') ''a'' = None
      \<and> objects s' = []"
proof -
  let ?s = "snd (register (\<lambda>n. ''a'') 0 (1, 1) (car_at 1 1) (ObjectTracker_init 0 100))"
  have h: "apply_ops (\<lambda>n. ''a'') [Register 0 (1, 1) (car_at 1 1)] (ObjectTracker_init 0 100) = Inr ?s"
    by simp
  from update_empty [OF h, of "\<lambda>n. ''a''" 1]
  obtain s' where s': "update (\<lambda>n. ''a'') 1 [] ?s = Inr s'"
     "\<forall>tid obj n. map_of (objects ?s) tid = Some obj \<and> map_of (disappeared ?s) tid = Some n \<longrightarrow>
           (if n + 1 > max_disappeared ?s
            then map_of (objects s') tid = None \<and> map_of (disappeared s') tid = None
                 \<and> map_of (kalman_filters s') tid = None
            else map_of (objects s') tid
                   = Some (obj\<lparr> time_since_update := time_since_update obj + 1,
                                 age := age obj + 1 \<rparr>)
                 \<and> map_of (disappeared s') tid = Some (n + 1)
                 \<and> map_of (kalman_filters s') tid = map_of (kalman_filters ?s) tid)"
    by blast
  have l: "\<exists>obj. map_of (objects ?s) ''a'' = Some obj" "map_of (disappeared ?s) ''a'' = Some 0"
       "max_disappeared ?s = 0"
    by (simp_all add: tracker_eval)
  then obtain obj where o: "map_of (objects ?s) ''a'' = Some obj" by blast
  from s'(2) o l(2,3) have n: "map_of (objects s') ''a'' = None"
    by (metis add_0 zero_less_one)
  have "update (\<lambda>n. ''a'') 1 [] ?s
          = Inr \<lparr>max_disappeared = 0, max_distance = 100, objects = [], disappeared = [],
                 kalman_filters = [], issued = [''a'']\<rparr>"
    by (simp add: tracker_eval)
  then have "objects s' = []" using s'(1) by simp
  then show ?thesis using s'(1) n by blast
qed





section \<open>Properties of the session registry and of the speed computation\<close>

lemma stream_init_inv:
  "(tracker (CameraStream_init cam) \<noteq> None) = tracking_on (features (camera (CameraStream_init cam)))"
  by (simp add: CameraStream_init_def tracking_on_def)

lemma update_features_inv:
  "(tracker (update_features fs stream) \<noteq> None) = tracking_on (features (camera (update_features fs stream)))"
  by (simp add: update_features_def tracking_on_def Let_def)

lemma registry_step_inv: "streams_inv m \<Longrightarrow> streams_inv (registry_step x m)"
proof (cases x)
  case (AddStream cam)
  assume "streams_inv m"
  then show ?thesis using AddStream stream_init_inv [of cam]
    by (auto simp: streams_inv_def add_stream_def)
next
  case (RemoveStream cid)
  assume "streams_inv m"
  then show ?thesis using RemoveStream
    by (auto simp: streams_inv_def remove_stream_def)
next
  case (UpdateStreamFeatures cid fs)
  assume "streams_inv m"
  then show ?thesis using UpdateStreamFeatures update_features_inv
    by (auto simp: streams_inv_def update_stream_features_def get_stream_def split: option.splits)
next
  case (TrackFrame cid uuid now dets)
  assume "streams_inv m"
  then show ?thesis using TrackFrame
    by (auto simp: streams_inv_def track_frame_def get_stream_def split: option.splits sum.splits)
qed

lemma fold_registry_inv: "streams_inv m \<Longrightarrow> streams_inv (fold registry_step xs m)"
  by (induction xs arbitrary: m) (simp_all add: registry_step_inv)

lemma run_registry_inv: "streams_inv (run_registry xs)"
  unfolding run_registry_def by (rule fold_registry_inv) (simp add: streams_inv_def)

text \<open>
  C8.  In every registry reached by adding and removing streams, updating features and tracking
  frames: adding a stream for a camera id already present returns \<open>True\<close> and leaves the
  registry, and so the session and its tracker, unchanged; a session has a tracker exactly when
  its tracking flag is on; and \<open>update_features\<close> keeps the tracker as it is when the flag
  stays on, creates a new one when the flag goes from off to on, and leaves the session without
  one when the new flag is off, so the tracker changes only on a transition of the flag.
\<close>

theorem registry_keeps_tracker:
  assumes "run_registry xs = m"
  shows "(camera_id cam \<in> dom m \<longrightarrow> add_stream cam m = (True, m))
     \<and> (m cid = Some stream \<longrightarrow>
          update_stream_features cid fs m = m(cid \<mapsto> update_features fs stream)
          \<and> (tracker stream \<noteq> None) = tracking_on (features (camera stream))
          \<and> (tracking_on (features (camera stream)) \<and> tracking_on fs \<longrightarrow>
                tracker (update_features fs stream) = tracker stream)
          \<and> (\<not> tracking_on (features (camera stream)) \<and> tracking_on fs \<longrightarrow>
                tracker (update_features fs stream) = Some ObjectTracker_default)
          \<and> (\<not> tracking_on fs \<longrightarrow> tracker (update_features fs stream) = None)
          \<and> (tracker (update_features fs stream) \<noteq> tracker stream \<longrightarrow>
                tracking_on (features (camera stream)) \<noteq> tracking_on fs))"
proof -
  have inv: "streams_inv m" using run_registry_inv [of xs] assms by simp
  have a: "camera_id cam \<in> dom m \<longrightarrow> add_stream cam m = (True, m)"
    by (simp add: add_stream_def)
  have b: "m cid = Some stream \<longrightarrow>
          update_stream_features cid fs m = m(cid \<mapsto> update_features fs stream)
          \<and> (tracker stream \<noteq> None) = tracking_on (features (camera stream))
          \<and> (tracking_on (features (camera stream)) \<and> tracking_on fs \<longrightarrow>
                tracker (update_features fs stream) = tracker stream)
          \<and> (\<not> tracking_on (features (camera stream)) \<and> tracking_on fs \<longrightarrow>
                tracker (update_features fs stream) = Some ObjectTracker_default)
          \<and> (\<not> tracking_on fs \<longrightarrow> tracker (update_features fs stream) = None)
          \<and> (tracker (update_features fs stream) \<noteq> tracker stream \<longrightarrow>
                tracking_on (features (camera stream)) \<noteq> tracking_on fs)"
  proof
    assume s: "m cid = Some stream"
    then have i: "(tracker stream \<noteq> None) = tracking_on (features (camera stream))"
      using inv unfolding streams_inv_def by blast
    have u: "update_stream_features cid fs m = m(cid \<mapsto> update_features fs stream)"
      using s by (simp add: update_stream_features_def get_stream_def)
    show "update_stream_features cid fs m = m(cid \<mapsto> update_features fs stream)
          \<and> (tracker stream \<noteq> None) = tracking_on (features (camera stream))
          \<and> (tracking_on (features (camera stream)) \<and> tracking_on fs \<longrightarrow>
                tracker (update_features fs stream) = tracker stream)
          \<and> (\<not> tracking_on (features (camera stream)) \<and> tracking_on fs \<longrightarrow>
                tracker (update_features fs stream) = Some ObjectTracker_default)
          \<and> (\<not> tracking_on fs \<longrightarrow> tracker (update_features fs stream) = None)
          \<and> (tracker (update_features fs stream) \<noteq> tracker stream \<longrightarrow>
                tracking_on (features (camera stream)) \<noteq> tracking_on fs)"
      using i u by (auto simp: update_features_def tracking_on_def Let_def)
  qed
  show ?thesis using a b by blast
qed

text \<open>
  C10.  The speed of a tracked object is computed by the global calculator, whose frame rate is
  30: \<open>speed_px_per_sec\<close> is \<open>sqrt (vx\<^sup>2 + vy\<^sup>2) * 30\<close>; with a non-zero
  pixels-per-metre ratio \<open>r\<close>, \<open>speed_m_per_sec\<close> is that divided by \<open>r\<close> and
  \<open>speed_kmh\<close> is \<open>speed_m_per_sec * 3.6\<close>.  The speed block of the frame pipeline
  returns exactly this dict, and the camera's configured \<open>fps\<close> has no influence on it.
\<close>

theorem speed_uses_30_fps:
  "map_of (calculate_speed speed_calculator (vx, vy) ppm) ''speed_px_per_sec''
      = Some (sqrt (vx\<^sup>2 + vy\<^sup>2) * 30)
   \<and> (r \<noteq> 0 \<longrightarrow>
        map_of (calculate_speed speed_calculator (vx, vy) (Some r)) ''speed_m_per_sec''
          = Some (sqrt (vx\<^sup>2 + vy\<^sup>2) * 30 / r)
        \<and> map_of (calculate_speed speed_calculator (vx, vy) (Some r)) ''speed_kmh''
          = Some (sqrt (vx\<^sup>2 + vy\<^sup>2) * 30 / r * 3.6))
   \<and> (speed_block cam cls (vx, vy) = Inr (Some d) \<longrightarrow>
        d = calculate_speed speed_calculator (vx, vy)
              (if is_calibrated cam then pixels_per_meter cam else None))
   \<and> speed_block (cam\<lparr> fps := f \<rparr>) cls (vx, vy) = speed_block cam cls (vx, vy)"
proof -
  have a: "map_of (calculate_speed speed_calculator (vx, vy) ppm) ''speed_px_per_sec''
      = Some (sqrt (vx\<^sup>2 + vy\<^sup>2) * 30)"
    by (cases ppm)
       (simp_all add: calculate_speed_def speed_calculator_def SpeedCalculator_init_def Let_def)
  have b: "r \<noteq> 0 \<longrightarrow>
        map_of (calculate_speed speed_calculator (vx, vy) (Some r)) ''speed_m_per_sec''
          = Some (sqrt (vx\<^sup>2 + vy\<^sup>2) * 30 / r)
        \<and> map_of (calculate_speed speed_calculator (vx, vy) (Some r)) ''speed_kmh''
          = Some (sqrt (vx\<^sup>2 + vy\<^sup>2) * 30 / r * 3.6)"
    by (simp add: calculate_speed_def speed_calculator_def SpeedCalculator_init_def Let_def)
  have c: "speed_block cam cls (vx, vy) = Inr (Some d) \<longrightarrow>
        d = calculate_speed speed_calculator (vx, vy)
              (if is_calibrated cam then pixels_per_meter cam else None)"
    by (auto simp: speed_block_def Let_def split: option.splits feature_value.splits if_splits)
  have d: "speed_block (cam\<lparr> fps := f \<rparr>) cls (vx, vy) = speed_block cam cls (vx, vy)"
    by (simp add: speed_block_def Let_def split: option.splits feature_value.splits)
  show ?thesis using a b c d by blast
qed

theorem speed_uses_30_fps_witness:
  "fps gate_camera = 15
   \<and> speed_block gate_camera ''car'' (10, 0)
       = Inr (Some (calculate_speed speed_calculator (10, 0) (Some 100)))
   \<and> map_of (calculate_speed speed_calculator (10, 0) (Some 100)) ''speed_px_per_sec'' = Some 300
   \<and> map_of (calculate_speed speed_calculator (10, 0) (Some 100)) ''speed_m_per_sec'' = Some 3
   \<and> map_of (calculate_speed speed_calculator (10, 0) (Some 100)) ''speed_kmh'' = Some 10.8"
proof -
  have e: "speed_block gate_camera ''car'' (10, 0)
       = Inr (Some (calculate_speed speed_calculator (10, 0) (Some 100)))"
    by (simp add: speed_block_def gate_camera_def get_flag_def)
  from speed_uses_30_fps [where vx = 10 and vy = 0 and r = 100 and ppm = "Some 100"
      and cam = gate_camera and cls = "''car''"
      and d = "calculate_speed speed_calculator (10, 0) (Some 100)"]
  show ?thesis using e by (simp add: gate_camera_def)
qed

lemma gate_camera_facts:
  "camera_id gate_camera = ''cam1''"
  "get_flag (features gate_camera) ''tracking'' False"
  by (simp_all add: gate_camera_def get_flag_def)

lemma update_first_car:
  "update uuid now [car_at 1 1] ObjectTracker_default
     = Inr (snd (register uuid now (1, 1) (car_at 1 1) ObjectTracker_default))"
  by (simp add: update_def ObjectTracker_default_def ObjectTracker_init_def centroid_of_def
        car_at_def Let_def)

lemma gate_registry:
  "run_registry [AddStream gate_camera, TrackFrame ''cam1'' uuid now [car_at 1 1]] ''cam1''
     = Some \<lparr> camera = gate_camera,
              tracker = Some (snd (register uuid now (1, 1) (car_at 1 1) ObjectTracker_default)) \<rparr>"
  by (simp add: run_registry_def add_stream_def track_frame_def get_stream_def
        CameraStream_init_def gate_camera_facts update_first_car)

theorem registry_keeps_tracker_witness:
  "\<exists>stream. run_registry [AddStream gate_camera, TrackFrame ''cam1'' (\<lambda>n. ''a'') 0 [car_at 1 1]] ''cam1''
        = Some stream
     \<and> tracker stream \<noteq> Some ObjectTracker_default
     \<and> tracker (update_features [''tracking'' \<mapsto> Flag True] stream) = tracker stream
     \<and> tracker (update_features [''tracking'' \<mapsto> Flag False] stream) = None
     \<and> add_stream gate_camera
          (run_registry [AddStream gate_camera, TrackFrame ''cam1'' (\<lambda>n. ''a'') 0 [car_at 1 1]])
        = (True, run_registry [AddStream gate_camera, TrackFrame ''cam1'' (\<lambda>n. ''a'') 0 [car_at 1 1]])"
proof -
  let ?xs = "[AddStream gate_camera, TrackFrame ''cam1'' (\<lambda>n. ''a'') 0 [car_at 1 1]]"
  let ?m = "run_registry ?xs"
  let ?t = "snd (register (\<lambda>n. ''a'') 0 (1, 1) (car_at 1 1) ObjectTracker_default)"
  let ?stream = "\<lparr> camera = gate_camera, tracker = Some ?t \<rparr>"
  have s: "?m ''cam1'' = Some ?stream" by (rule gate_registry)
  have "issued ?t \<noteq> issued ObjectTracker_default"
    by (simp add: register_def Let_def ObjectTracker_default_def ObjectTracker_init_def)
  then have ne: "tracker ?stream \<noteq> Some ObjectTracker_default" by auto
  have on: "tracking_on (features (camera ?stream))" "tracking_on [''tracking'' \<mapsto> Flag True]"
       "\<not> tracking_on [''tracking'' \<mapsto> Flag False]"
    by (simp_all add: tracking_on_def gate_camera_facts) (simp_all add: get_flag_def)
  have dom: "camera_id gate_camera \<in> dom ?m"
    using s by (auto simp: gate_camera_facts)
  from registry_keeps_tracker [OF refl, where xs = ?xs and cam = gate_camera
         and cid = "''cam1''" and stream = ?stream and fs = "[''tracking'' \<mapsto> Flag True]"]
  have a: "tracker (update_features [''tracking'' \<mapsto> Flag True] ?stream) = tracker ?stream"
    and d: "add_stream gate_camera ?m = (True, ?m)"
    using s on dom by blast+
  from registry_keeps_tracker [OF refl, where xs = ?xs and cam = gate_camera
         and cid = "''cam1''" and stream = ?stream and fs = "[''tracking'' \<mapsto> Flag False]"]
  have b: "tracker (update_features [''tracking'' \<mapsto> Flag False] ?stream) = None"
    using s on by blast
  show ?thesis
    by (intro exI [of _ ?stream] conjI s ne a b d)
qed

end
